theory Spec2Isabelle
  imports Main "HOL-Library.Word" "HOL-Library.Monad_Syntax"
begin

unbundle bit_operations_syntax

section \<open>The cache simulator of cache.c and cache.h\<close>

text \<open>
  The C program targets a 64-bit machine: \<open>uintptr_t\<close>, \<open>size_t\<close> and \<open>unsigned long\<close>
  are \<open>64 word\<close>, \<open>unsigned int\<close> is \<open>32 word\<close>, and \<open>cache_new\<close> itself writes
  \<open>64 - tag_shift\<close>. Values of type \<open>int\<close> are modelled as \<open>int\<close>; where the program
  converts between \<open>int\<close> and an unsigned type the conversion is written out.

  A C execution that has no defined result (division by zero, a shift by the full width of
  the type, an overflowing \<open>int\<close> counter, an array access outside the allocated object)
  is the value \<open>None\<close>.
\<close>

subsection \<open>Policy constants (cache.h)\<close>

definition CACHE_REPLACEMENTPOLICY_MASK :: "32 word" where
  "CACHE_REPLACEMENTPOLICY_MASK = 0b00001100"

definition CACHE_REPLACEMENTPOLICY_RANDOM :: "32 word" where
  "CACHE_REPLACEMENTPOLICY_RANDOM = 0b00000000"

definition CACHE_REPLACEMENTPOLICY_LRU :: "32 word" where
  "CACHE_REPLACEMENTPOLICY_LRU = 0b00000100"

definition CACHE_REPLACEMENTPOLICY_MRU :: "32 word" where
  "CACHE_REPLACEMENTPOLICY_MRU = 0b00001000"

definition CACHE_WRITEPOLICY_MASK :: "32 word" where
  "CACHE_WRITEPOLICY_MASK = 0b00000011"

definition CACHE_WRITEPOLICY_WRITEBACK :: "32 word" where
  "CACHE_WRITEPOLICY_WRITEBACK = 0b00000001"

definition CACHE_WRITEPOLICY_WRITENOALLOCATE :: "32 word" where
  "CACHE_WRITEPOLICY_WRITENOALLOCATE = 0b00000010"

definition CACHE_TRACE_MASK :: "32 word" where
  "CACHE_TRACE_MASK = 0b00010000"

definition CACHE_TRACEPOLICY :: "32 word" where
  "CACHE_TRACEPOLICY = 0b00010000"

subsection \<open>Data structures (cache.h)\<close>

text \<open>
  \<open>block\<close> points into the arena \<open>cache->memory\<close>; it is modelled as the offset of the
  block's first byte in that arena.
\<close>

record cache_line =
  is_valid :: int
  tag :: "64 word"
  block :: nat

text \<open>
  The field \<open>lines\<close> of a set always holds the pointer \<open>cache->lines\<close> (the one array of all
  lines), so the model reads the lines of a set from the cache; \<open>first_index\<close> is the
  position of the set's first line in that array. The field \<open>size\<close> is named \<open>set_size\<close>.
\<close>

record cache_set =
  set_size :: int
  first_index :: int
  mru_list :: "int list"

record cache =
  num_sets :: "32 word"
  num_lines :: "32 word"
  line_size :: "64 word"
  associativity :: "64 word"
  block_offset_mask :: "64 word"
  cache_index_mask :: "64 word"
  cache_index_shift :: "32 word"
  tag_mask :: "64 word"
  tag_shift :: "32 word"
  policies :: "32 word"
  memory :: "8 word list"
  lines :: "cache_line list"
  sets :: "cache_set list"
  access_count :: "32 word"
  miss_count :: "32 word"

subsection \<open>Construction\<close>

text \<open>
  \<open>cache_set_init\<close>: the loop clears the valid bit of the set's lines in the shared array
  and writes \<open>mru_list[i] = i\<close>. The function returns the new set and the updated array.
\<close>

fun cache_set_init_loop ::
  "int \<Rightarrow> nat \<Rightarrow> nat \<Rightarrow> cache_line list \<Rightarrow> int list \<Rightarrow> (cache_line list \<times> int list) option" where
  "cache_set_init_loop first_idx i 0 ls ml = Some (ls, ml)"
| "cache_set_init_loop first_idx i (Suc n) ls ml =
     (let k = first_idx + int i in
      if k < 0 \<or> int (length ls) \<le> k then None
      else cache_set_init_loop first_idx (Suc i) n
             (ls[nat k := (ls ! nat k)\<lparr>is_valid := 0\<rparr>]) (ml @ [int i]))"

definition cache_set_init ::
  "32 word \<Rightarrow> cache_line list \<Rightarrow> int \<Rightarrow> (cache_set \<times> cache_line list) option" where
  "cache_set_init assoc ls first_idx =
     (if 2 ^ 31 \<le> uint assoc then None
      else do {
        (ls', ml) \<leftarrow> cache_set_init_loop first_idx 0 (unat assoc) ls [];
        Some (\<lparr>set_size = sint assoc, first_index = first_idx, mru_list = ml\<rparr>, ls')
      })"

text \<open>\<open>logbase2\<close>: the loop \<open>while (value > 1) { ans++; value >>= 1; }\<close>.\<close>

function logbase2_loop :: "int \<Rightarrow> nat \<Rightarrow> nat" where
  "logbase2_loop v ans = (if 1 < v then logbase2_loop (v div 2) (Suc ans) else ans)"
  by pat_completeness auto
termination
  by (relation "measure (\<lambda>(v, ans). nat v)") auto

definition logbase2 :: "int \<Rightarrow> nat" where
  "logbase2 v = logbase2_loop v 0"

text \<open>
  \<open>maskbits\<close>: \<open>(1L << nbits) - 1\<close> on a 64-bit \<open>long\<close>. A shift by 64 or more (or by a
  negative count) is undefined in C; a shift by 63 followed by the subtraction is taken
  in two's complement, as every 64-bit compiler does.
\<close>

definition maskbits :: "int \<Rightarrow> 64 word option" where
  "maskbits nbits =
     (if nbits < 0 \<or> 64 \<le> nbits then None else Some (push_bit (nat nbits) 1 - 1))"

text \<open>The loop of \<open>cache_new\<close> that gives line \<open>i\<close> the block at \<open>memory + i * line_size\<close>.\<close>

definition lines_init :: "nat \<Rightarrow> nat \<Rightarrow> cache_line list" where
  "lines_init n lsz = map (\<lambda>i. \<lparr>is_valid = 0, tag = 0, block = i * lsz\<rparr>) [0..<n]"

text \<open>The loop of \<open>cache_new\<close> over the sets, \<open>first_index\<close> growing by the associativity.\<close>

fun sets_init_loop ::
  "32 word \<Rightarrow> nat \<Rightarrow> int \<Rightarrow> cache_line list \<Rightarrow> cache_set list
     \<Rightarrow> (cache_set list \<times> cache_line list) option" where
  "sets_init_loop assoc 0 first_idx ls ss = Some (ss, ls)"
| "sets_init_loop assoc (Suc n) first_idx ls ss =
     do {
       (s, ls') \<leftarrow> cache_set_init assoc ls first_idx;
       sets_init_loop assoc n (first_idx + int (unat assoc)) ls' (ss @ [s])
     }"

text \<open>
  \<open>cache_new\<close>. \<open>malloc\<close> does not initialise the arena; its first contents are the
  parameter \<open>arena\<close> (a function from arena offsets to bytes). Allocation is assumed to
  succeed, as the program assumes. \<open>num_lines\<close> and \<open>num_sets\<close> are \<open>unsigned int\<close>, so the
  quotient of the two \<open>size_t\<close> values is truncated to 32 bits; \<open>logbase2\<close> takes an \<open>int\<close>,
  so its argument is truncated to 32 bits and read as signed. The loop over the lines counts
  with an \<open>int\<close>, which overflows when there are more than \<open>INT_MAX\<close> lines.
\<close>

definition cache_new ::
  "(nat \<Rightarrow> 8 word) \<Rightarrow> 64 word \<Rightarrow> 64 word \<Rightarrow> 32 word \<Rightarrow> 32 word \<Rightarrow> cache option" where
  "cache_new arena num_bytes block_size assoc pol =
     (if block_size = 0 then None
      else let nlines = (ucast (num_bytes div block_size) :: 32 word) in
      if assoc = 0 then None
      else let nsets = nlines div assoc;
               offset_bits = logbase2 (sint (ucast block_size :: 32 word));
               index_bits = logbase2 (sint nsets);
               tshift = offset_bits + index_bits in
      do {
        offset_mask \<leftarrow> maskbits (int offset_bits);
        index_mask \<leftarrow> maskbits (int index_bits);
        tmask \<leftarrow> maskbits (64 - int tshift);
        (if 2 ^ 31 \<le> uint nlines then None
         else do {
           (ss, ls) \<leftarrow> sets_init_loop assoc (unat nsets) 0
                         (lines_init (unat nlines) (unat block_size)) [];
           Some \<lparr>num_sets = nsets, num_lines = nlines, line_size = block_size,
                 associativity = ucast assoc,
                 block_offset_mask = offset_mask,
                 cache_index_mask = push_bit offset_bits index_mask,
                 cache_index_shift = of_nat offset_bits,
                 tag_mask = push_bit tshift tmask,
                 tag_shift = of_nat tshift,
                 policies = pol,
                 memory = map arena [0..<unat num_bytes],
                 lines = ls, sets = ss,
                 access_count = 0, miss_count = 0\<rparr>
         })
      })"

subsection \<open>Lines\<close>

definition cache_line_check_validity_and_tag :: "cache_line \<Rightarrow> 64 word \<Rightarrow> int" where
  "cache_line_check_validity_and_tag cache_line tg =
     (if is_valid cache_line \<noteq> 0 then (if tag cache_line = tg then 1 else 0) else 0)"

text \<open>
  \<open>cache_line_retrieve_data\<close> loads the \<open>uint32_t\<close> at \<open>&block[offset]\<close> and returns it as a
  \<open>long\<close>. The load is little-endian and may be unaligned, as on x86-64. The four bytes are
  read from the arena; a load that leaves the arena is undefined.
\<close>

definition cache_line_retrieve_data :: "8 word list \<Rightarrow> cache_line \<Rightarrow> 64 word \<Rightarrow> 64 word option" where
  "cache_line_retrieve_data arena cache_line offset =
     (let p = block cache_line + unat offset in
      if length arena < p + 4 then None
      else Some (ucast (arena ! p)
                 OR push_bit 8 (ucast (arena ! (p + 1)))
                 OR push_bit 16 (ucast (arena ! (p + 2)))
                 OR push_bit 24 (ucast (arena ! (p + 3)))))"

subsection \<open>The recency list\<close>

text \<open>
  \<open>cache_line_make_mru\<close>, first loop: the position of \<open>line_index\<close> among the first
  \<open>associativity\<close> entries of \<open>mru_list\<close>, or \<open>-1\<close>.
\<close>

function mru_find :: "nat \<Rightarrow> int list \<Rightarrow> int \<Rightarrow> nat \<Rightarrow> int option" where
  "mru_find assoc ml line_index i =
     (if i < assoc then
        (if length ml \<le> i then None
         else if ml ! i = line_index then Some (int i)
         else mru_find assoc ml line_index (Suc i))
      else Some (- 1))"
  by pat_completeness auto
termination
  by (relation "measure (\<lambda>(assoc, ml, line_index, i). assoc - i)") auto

text \<open>
  Second loop: \<open>for (i = index_of_line_index - 1; i >= 0; i--) mru_list[i + 1] = mru_list[i]\<close>.
  \<open>mru_shift ml n\<close> runs the iterations \<open>i = n - 1, ..., 0\<close>.
\<close>

fun mru_shift :: "int list \<Rightarrow> nat \<Rightarrow> int list" where
  "mru_shift ml 0 = ml"
| "mru_shift ml (Suc i) = mru_shift (ml[Suc i := ml ! i]) i"

text \<open>
  The pointer \<open>cache_set\<close> is \<open>&cache->sets[si]\<close>: the functions below take the cache and the
  position \<open>si\<close> of the set, and return the cache with the set updated.

  The parameter \<open>line_index\<close> is a \<open>size_t\<close>, but every caller passes an \<open>int\<close>, the
  comparison with \<open>mru_list[i]\<close> converts that entry to \<open>size_t\<close> in the same way, and the
  store to \<open>mru_list[0]\<close> converts back: on \<open>int\<close> values the function is as written here.
  The store to \<open>mru_list[0]\<close> is outside the list when the list is empty.
\<close>

definition cache_line_make_mru :: "cache \<Rightarrow> nat \<Rightarrow> int \<Rightarrow> cache option" where
  "cache_line_make_mru c si line_index =
     (let cs = sets c ! si in
      do {
        index_of_line_index \<leftarrow> mru_find (unat (associativity c)) (mru_list cs) line_index 0;
        let ml = mru_shift (mru_list cs) (nat index_of_line_index);
        if ml = [] then None
        else Some (c\<lparr>sets := (sets c)[si := cs\<lparr>mru_list := ml[0 := line_index]\<rparr>]\<rparr>)
      })"

subsection \<open>Lookup and replacement\<close>

text \<open>
  A pointer to a line is its position in \<open>cache->lines\<close>; \<open>NULL\<close> is \<open>None\<close>.
  Note that the policy tests compare the whole of \<open>cache->policies\<close> with the constant.
\<close>

function find_matching_loop :: "cache \<Rightarrow> nat \<Rightarrow> 64 word \<Rightarrow> int \<Rightarrow> (cache \<times> int option) option" where
  "find_matching_loop c si tg i =
     (let cs = sets c ! si in
      if i < set_size cs then
        (let k = first_index cs + i in
         if k < 0 \<or> int (length (lines c)) \<le> k then None
         else if cache_line_check_validity_and_tag (lines c ! nat k) tg \<noteq> 0 then
           (if policies c = CACHE_REPLACEMENTPOLICY_LRU \<or> policies c = CACHE_REPLACEMENTPOLICY_MRU
            then do { c' \<leftarrow> cache_line_make_mru c si i; Some (c', Some k) }
            else Some (c, Some k))
         else find_matching_loop c si tg (i + 1))
      else Some (c, None))"
  by pat_completeness auto
termination
  by (relation "measure (\<lambda>(c, si, tg, i). nat (set_size (sets c ! si) - i))") auto

definition cache_set_find_matching_line :: "cache \<Rightarrow> nat \<Rightarrow> 64 word \<Rightarrow> (cache \<times> int option) option" where
  "cache_set_find_matching_line c si tg = find_matching_loop c si tg 0"

text \<open>The first loop of \<open>find_available_cache_line\<close>: the first line whose valid bit is 0.\<close>

function find_unused_loop :: "cache \<Rightarrow> nat \<Rightarrow> int \<Rightarrow> (cache \<times> int) option option" where
  "find_unused_loop c si i =
     (let cs = sets c ! si in
      if i < set_size cs then
        (let k = first_index cs + i in
         if k < 0 \<or> int (length (lines c)) \<le> k then None
         else if is_valid (lines c ! nat k) = 0 then
           (if policies c = CACHE_REPLACEMENTPOLICY_MRU \<or> policies c = CACHE_REPLACEMENTPOLICY_LRU
            then do { c' \<leftarrow> cache_line_make_mru c si i; Some (Some (c', k)) }
            else Some (Some (c, k)))
         else find_unused_loop c si (i + 1))
      else Some None)"
  by pat_completeness auto
termination
  by (relation "measure (\<lambda>(c, si, i). nat (set_size (sets c ! si) - i))") auto

text \<open>C's \<open>%\<close> on \<open>int\<close> truncates towards zero: the remainder has the sign of the dividend.\<close>

definition c_rem :: "int \<Rightarrow> int \<Rightarrow> int" where
  "c_rem a b = sgn a * (\<bar>a\<bar> mod \<bar>b\<bar>)"

text \<open>
  \<open>generate_random_number\<close> is called at most once in a call of \<open>find_available_cache_line\<close>;
  the parameter \<open>rnd\<close> is the \<open>int\<close> that call returns. The remainder is undefined for
  the divisor 0 and for \<open>INT_MIN % -1\<close>. The function returns the cache and the position of
  the chosen line in \<open>cache->lines\<close>, which \<open>cache_set_add\<close> dereferences.
\<close>

definition find_available_cache_line :: "cache \<Rightarrow> nat \<Rightarrow> int \<Rightarrow> (cache \<times> int) option" where
  "find_available_cache_line c si rnd =
     do {
       unused \<leftarrow> find_unused_loop c si 0;
       (case unused of
          Some r \<Rightarrow> Some r
        | None \<Rightarrow>
           (let cs = sets c ! si in
            if policies c = CACHE_REPLACEMENTPOLICY_MRU then
              (if mru_list cs = [] then None
               else do {
                 c' \<leftarrow> cache_line_make_mru c si (mru_list cs ! 0);
                 Some (c', first_index (sets c' ! si) + mru_list (sets c' ! si) ! 0)
               })
            else if policies c = CACHE_REPLACEMENTPOLICY_LRU then
              (if set_size cs - 1 < 0 \<or> int (length (mru_list cs)) \<le> set_size cs - 1 then None
               else let lru_index = mru_list cs ! nat (set_size cs - 1) in
                 do {
                   c' \<leftarrow> cache_line_make_mru c si lru_index;
                   Some (c', first_index (sets c' ! si) + lru_index)
                 })
            else
              (if set_size cs = 0 \<or> (rnd = - (2 ^ 31) \<and> set_size cs = - 1) then None
               else let random_line = c_rem rnd (set_size cs) in
                 Some (c, first_index cs + random_line))))
     }"

text \<open>
  \<open>cache_set_add\<close>. \<open>memcpy\<close> reads \<open>line_size\<close> bytes of the process memory \<open>mem\<close> (a
  function from addresses to bytes, every address readable) that start at
  \<open>address & ~block_offset_mask\<close>, and writes them to the line's block in the arena.
  The process memory read by \<open>memcpy\<close> is taken to be disjoint from the cache's own arena.
\<close>

definition cache_set_add ::
  "cache \<Rightarrow> (64 word \<Rightarrow> 8 word) \<Rightarrow> nat \<Rightarrow> 64 word \<Rightarrow> 64 word \<Rightarrow> int \<Rightarrow> (cache \<times> int) option" where
  "cache_set_add c mem si address tg rnd =
     do {
       (c1, k) \<leftarrow> find_available_cache_line c si rnd;
       (if k < 0 \<or> int (length (lines c1)) \<le> k then None
        else let line = lines c1 ! nat k;
                 src = address AND NOT (block_offset_mask c1);
                 n = unat (line_size c1) in
          if length (memory c1) < block line + n then None
          else Some (c1\<lparr>lines := (lines c1)[nat k := line\<lparr>tag := tg, is_valid := 1\<rparr>],
                        memory := take (block line) (memory c1)
                                  @ map (\<lambda>j. mem (src + of_nat j)) [0..<n]
                                  @ drop (block line + n) (memory c1)\<rparr>, k))
     }"

subsection \<open>Trace text\<close>

text \<open>
  \<open>fprintf\<close> with \<open>%3u\<close> writes the decimal digits right-justified in a field of at least
  three characters; \<open>PRIxPTR\<close> writes lower-case hexadecimal digits with no padding.
\<close>

definition digit_char :: "nat \<Rightarrow> char" where
  "digit_char d = ''0123456789abcdef'' ! d"

function digits_of :: "nat \<Rightarrow> nat \<Rightarrow> string" where
  "digits_of b n =
     (if b < 2 \<or> n < b then [digit_char n] else digits_of b (n div b) @ [digit_char (n mod b)])"
  by pat_completeness auto
termination
  by (relation "measure (\<lambda>(b, n). n)") auto

definition pad_left :: "nat \<Rightarrow> string \<Rightarrow> string" where
  "pad_left w s = replicate (w - length s) CHR '' '' @ s"

definition trace_miss :: "32 word \<Rightarrow> 64 word \<Rightarrow> string" where
  "trace_miss index address =
     ''Cache hit in set '' @ pad_left 3 (digits_of 10 (unat index))
       @ '' for address 0x'' @ digits_of 16 (unat address) @ [CHR 0x0A]"

definition trace_hit :: "32 word \<Rightarrow> 64 word \<Rightarrow> string" where
  "trace_hit index address =
     ''Cache  hit in set '' @ pad_left 3 (digits_of 10 (unat index))
       @ '' for address 0x'' @ digits_of 16 (unat address) @ [CHR 0x0A]"

subsection \<open>Reading and writing\<close>

text \<open>The three fields of an address, as the first statements of \<open>cache_read\<close> compute them.\<close>

definition address_offset :: "cache \<Rightarrow> 64 word \<Rightarrow> 32 word" where
  "address_offset c address = ucast (address AND block_offset_mask c)"

definition address_index :: "cache \<Rightarrow> 64 word \<Rightarrow> 32 word" where
  "address_index c address =
     ucast (drop_bit (unat (cache_index_shift c)) (address AND cache_index_mask c))"

definition address_tag :: "cache \<Rightarrow> 64 word \<Rightarrow> 64 word" where
  "address_tag c address = drop_bit (unat (tag_shift c)) (address AND tag_mask c)"

text \<open>
  \<open>cache_read\<close> returns the value read, the new cache and the lines written to \<open>stderr\<close>.
  A shift of a 64-bit value by 64 or more is undefined, and so is \<open>cache->sets[index]\<close>
  beyond the allocated sets.
\<close>

definition cache_read ::
  "cache \<Rightarrow> (64 word \<Rightarrow> 8 word) \<Rightarrow> 64 word \<Rightarrow> int \<Rightarrow> (64 word \<times> cache \<times> string list) option" where
  "cache_read c mem address rnd =
     (if 64 \<le> unat (cache_index_shift c) \<or> 64 \<le> unat (tag_shift c) then None
      else let offset = address_offset c address;
               index = address_index c address;
               tg = address_tag c address in
      if length (sets c) \<le> unat index then None
      else do {
        (c1, resulting_line) \<leftarrow> cache_set_find_matching_line c (unat index) tg;
        let c2 = c1\<lparr>access_count := access_count c1 + 1\<rparr>;
        (case resulting_line of
           None \<Rightarrow>
             (let c3 = c2\<lparr>miss_count := miss_count c2 + 1\<rparr>;
                  out = (if policies c3 AND CACHE_TRACE_MASK = CACHE_TRACEPOLICY
                         then [trace_miss index address] else []) in
              do {
                (c4, k) \<leftarrow> cache_set_add c3 mem (unat index) address tg rnd;
                v \<leftarrow> cache_line_retrieve_data (memory c4) (lines c4 ! nat k) (ucast offset);
                Some (v, c4, out)
              })
         | Some k \<Rightarrow>
             (let out = (if policies c2 AND CACHE_TRACE_MASK = CACHE_TRACEPOLICY
                         then [trace_hit index address] else []) in
              do {
                v \<leftarrow> cache_line_retrieve_data (memory c2) (lines c2 ! nat k) (ucast offset);
                Some (v, c2, out)
              }))
      })"

text \<open>\<open>cache_write\<close> has an empty body: the cache and the process memory are as before.\<close>

definition cache_write ::
  "cache \<Rightarrow> (64 word \<Rightarrow> 8 word) \<Rightarrow> 64 word \<Rightarrow> 64 word \<Rightarrow> int \<Rightarrow> cache \<times> (64 word \<Rightarrow> 8 word)" where
  "cache_write c mem address v rnd = (c, mem)"

definition cache_miss_count :: "cache \<Rightarrow> int" where
  "cache_miss_count c = sint (miss_count c)"

definition cache_access_count :: "cache \<Rightarrow> int" where
  "cache_access_count c = sint (access_count c)"

subsection \<open>Replaying reads\<close>

text \<open>
  The driver that replays a trace is not part of \<open>cache.c\<close>. \<open>cache_reads\<close> stands for it:
  it calls \<open>cache_read\<close> once for each pair of an address and the number the generator
  would return during that call, in order, and collects the values read.
\<close>

fun cache_reads ::
  "cache \<Rightarrow> (64 word \<Rightarrow> 8 word) \<Rightarrow> (64 word \<times> int) list \<Rightarrow> (64 word list \<times> cache) option" where
  "cache_reads c mem [] = Some ([], c)"
| "cache_reads c mem ((a, rnd) # xs) =
     do {
       (v, c', out) \<leftarrow> cache_read c mem a rnd;
       (vs, c'') \<leftarrow> cache_reads c' mem xs;
       Some (v # vs, c'')
     }"

section \<open>Properties\<close>

subsection \<open>Auxiliary notions\<close>

text \<open>The recency list of a set with \<open>k\<close> lines is a permutation of the line indices \<open>0..<k\<close>.\<close>

definition is_recency_permutation :: "nat \<Rightarrow> int list \<Rightarrow> bool" where
  "is_recency_permutation k ml \<longleftrightarrow> length ml = k \<and> distinct ml \<and> set ml = int ` {0..<k}"

text \<open>
  The set at position \<open>si\<close> is well formed: it has \<open>associativity\<close> lines, all inside the
  array of lines, and its recency list is a permutation of their indices.
\<close>

definition wf_set :: "cache \<Rightarrow> nat \<Rightarrow> bool" where
  "wf_set c si \<longleftrightarrow>
     si < length (sets c)
     \<and> set_size (sets c ! si) = int (unat (associativity c))
     \<and> 0 \<le> first_index (sets c ! si)
     \<and> first_index (sets c ! si) + set_size (sets c ! si) \<le> int (length (lines c))
     \<and> is_recency_permutation (unat (associativity c)) (mru_list (sets c ! si))"

text \<open>\<open>slot c si i\<close> is line \<open>i\<close> of the set at position \<open>si\<close>.\<close>

definition slot :: "cache \<Rightarrow> nat \<Rightarrow> int \<Rightarrow> cache_line" where
  "slot c si i = lines c ! nat (first_index (sets c ! si) + i)"

text \<open>The policy tests of the lookup and of the replacement, on the whole flag word.\<close>

definition uses_recency :: "cache \<Rightarrow> bool" where
  "uses_recency c \<longleftrightarrow>
     policies c = CACHE_REPLACEMENTPOLICY_LRU \<or> policies c = CACHE_REPLACEMENTPOLICY_MRU"

text \<open>
  \<open>touch c si j\<close>: line \<open>j\<close> moved to the head of the recency list of set \<open>si\<close>;
  \<open>sel_state\<close> does so when the policy test succeeds.
\<close>

definition touch :: "cache \<Rightarrow> nat \<Rightarrow> int \<Rightarrow> cache" where
  "touch c si j =
     c\<lparr>sets := (sets c)[si := (sets c ! si)\<lparr>mru_list := j # remove1 j (mru_list (sets c ! si))\<rparr>]\<rparr>"

definition sel_state :: "cache \<Rightarrow> nat \<Rightarrow> int \<Rightarrow> cache" where
  "sel_state c si j = (if uses_recency c then touch c si j else c)"


definition trace_out :: "cache \<Rightarrow> string \<Rightarrow> string list" where
  "trace_out c s = (if policies c AND CACHE_TRACE_MASK = CACHE_TRACEPOLICY then [s] else [])"

text \<open>Where a tag is found in a set, and where the first unused line is.\<close>

definition first_match :: "cache \<Rightarrow> nat \<Rightarrow> 64 word \<Rightarrow> int \<Rightarrow> bool" where
  "first_match c si tg j \<longleftrightarrow>
     0 \<le> j \<and> j < set_size (sets c ! si)
     \<and> cache_line_check_validity_and_tag (slot c si j) tg \<noteq> 0
     \<and> (\<forall>i. 0 \<le> i \<and> i < j \<longrightarrow> cache_line_check_validity_and_tag (slot c si i) tg = 0)"

definition no_match :: "cache \<Rightarrow> nat \<Rightarrow> 64 word \<Rightarrow> bool" where
  "no_match c si tg \<longleftrightarrow>
     (\<forall>i. 0 \<le> i \<and> i < set_size (sets c ! si) \<longrightarrow>
        cache_line_check_validity_and_tag (slot c si i) tg = 0)"





text \<open>What \<open>cache_set_init\<close> establishes for a set among \<open>n\<close> lines.\<close>

definition good_set :: "nat \<Rightarrow> nat \<Rightarrow> cache_set \<Rightarrow> bool" where
  "good_set k n s \<longleftrightarrow>
     set_size s = int k \<and> 0 \<le> first_index s \<and> first_index s + set_size s \<le> int n
     \<and> is_recency_permutation k (mru_list s)"

subsection \<open>Example states\<close>

definition example_arena :: "nat \<Rightarrow> 8 word" where
  "example_arena i = 0"

definition example_mem :: "64 word \<Rightarrow> 8 word" where
  "example_mem a = ucast a"

text \<open>A fully associative LRU cache of four lines of four bytes, as \<open>cache_new\<close> builds it.\<close>

definition lru_cache :: cache where
  "lru_cache =
     \<lparr>num_sets = 1, num_lines = 4, line_size = 4, associativity = 4,
      block_offset_mask = 3, cache_index_mask = 0, cache_index_shift = 2,
      tag_mask = 18446744073709551612, tag_shift = 2, policies = 4,
      memory = [0, 0, 0, 0, 0, 0, 0, 0, 0, 0, 0, 0, 0, 0, 0, 0],
      lines = [\<lparr>is_valid = 0, tag = 0, block = 0\<rparr>, \<lparr>is_valid = 0, tag = 0, block = 4\<rparr>,
               \<lparr>is_valid = 0, tag = 0, block = 8\<rparr>, \<lparr>is_valid = 0, tag = 0, block = 12\<rparr>],
      sets = [\<lparr>set_size = 4, first_index = 0, mru_list = [0, 1, 2, 3]\<rparr>],
      access_count = 0, miss_count = 0\<rparr>"

text \<open>The same cache after a first read of address \<open>0x10\<close>.\<close>

definition lru_cache_1 :: cache where
  "lru_cache_1 =
     lru_cache\<lparr>memory := [16, 17, 18, 19, 0, 0, 0, 0, 0, 0, 0, 0, 0, 0, 0, 0],
               lines := [\<lparr>is_valid = 1, tag = 4, block = 0\<rparr>, \<lparr>is_valid = 0, tag = 0, block = 4\<rparr>,
                         \<lparr>is_valid = 0, tag = 0, block = 8\<rparr>, \<lparr>is_valid = 0, tag = 0, block = 12\<rparr>],
               access_count := 1, miss_count := 1\<rparr>"



text \<open>
  The same cache under MRU: empty, filled by the same four reads, and after the read of \<open>0x40\<close>.
\<close>

definition mru_cache :: cache where
  "mru_cache = lru_cache\<lparr>policies := CACHE_REPLACEMENTPOLICY_MRU\<rparr>"



text \<open>
  A cache of two sets of two lines under the random policy, after reads of \<open>0x04\<close> and
  \<open>0x0C\<close> have filled set 1; then after a read of \<open>0x14\<close> with the random number \<open>-1\<close>, and
  after a second read of \<open>0x14\<close>.
\<close>

definition random_cache_full :: cache where
  "random_cache_full =
     \<lparr>num_sets = 2, num_lines = 4, line_size = 4, associativity = 2,
      block_offset_mask = 3, cache_index_mask = 4, cache_index_shift = 2,
      tag_mask = 18446744073709551608, tag_shift = 3, policies = 0,
      memory = [0, 0, 0, 0, 0, 0, 0, 0, 4, 5, 6, 7, 12, 13, 14, 15],
      lines = [\<lparr>is_valid = 0, tag = 0, block = 0\<rparr>, \<lparr>is_valid = 0, tag = 0, block = 4\<rparr>,
               \<lparr>is_valid = 1, tag = 0, block = 8\<rparr>, \<lparr>is_valid = 1, tag = 1, block = 12\<rparr>],
      sets = [\<lparr>set_size = 2, first_index = 0, mru_list = [0, 1]\<rparr>,
              \<lparr>set_size = 2, first_index = 2, mru_list = [0, 1]\<rparr>],
      access_count = 2, miss_count = 2\<rparr>"



subsection \<open>Recursion equations are unfolded by hand\<close>

declare find_matching_loop.simps [simp del] find_unused_loop.simps [simp del]
  mru_find.simps [simp del] logbase2_loop.simps [simp del] digits_of.simps [simp del]

subsection \<open>What the operations leave unchanged\<close>

lemma frame_refl [simp]: "\<exists>ss. c = c\<lparr>sets := ss\<rparr>"
  by (rule exI [of _ "sets c"]) simp

lemma cache_line_make_mru_frame:
  "cache_line_make_mru c si x = Some c' \<Longrightarrow> \<exists>ss. c' = c\<lparr>sets := ss\<rparr>"
  by (auto simp: cache_line_make_mru_def Let_def split: Option.bind_splits if_splits)

lemma find_matching_loop_frame:
  "find_matching_loop c si tg i = Some (c', r) \<Longrightarrow> \<exists>ss. c' = c\<lparr>sets := ss\<rparr>"
proof (induction c si tg i rule: find_matching_loop.induct)
  case (1 c si tg i)
  note IH = "1.IH"[OF refl _ refl]
  from "1.prems" show ?case
    by (subst (asm) find_matching_loop.simps)
       (auto simp: Let_def split: if_splits Option.bind_splits
             intro: IH cache_line_make_mru_frame)
qed

lemma find_unused_loop_frame:
  "find_unused_loop c si i = Some (Some (c', k)) \<Longrightarrow> \<exists>ss. c' = c\<lparr>sets := ss\<rparr>"
proof (induction c si i rule: find_unused_loop.induct)
  case (1 c si i)
  note IH = "1.IH"[OF refl _ refl]
  from "1.prems" show ?case
    by (subst (asm) find_unused_loop.simps)
       (auto simp: Let_def split: if_splits Option.bind_splits
             intro: IH cache_line_make_mru_frame)
qed

lemma find_available_cache_line_frame:
  "find_available_cache_line c si rnd = Some (c', k) \<Longrightarrow> \<exists>ss. c' = c\<lparr>sets := ss\<rparr>"
  by (auto simp: find_available_cache_line_def Let_def
      split: Option.bind_splits if_splits option.splits
      intro: cache_line_make_mru_frame find_unused_loop_frame)

lemma cache_set_add_counts:
  "cache_set_add c mem si address tg rnd = Some (c', k) \<Longrightarrow>
     access_count c' = access_count c \<and> miss_count c' = miss_count c"
  apply (clarsimp simp: cache_set_add_def Let_def split: Option.bind_splits if_splits)
  apply (drule find_available_cache_line_frame)
  apply clarsimp
  done

lemma find_matching_counts:
  "cache_set_find_matching_line c si tg = Some (c', r) \<Longrightarrow>
     access_count c' = access_count c \<and> miss_count c' = miss_count c"
  unfolding cache_set_find_matching_line_def
  apply (drule find_matching_loop_frame)
  apply clarsimp
  done

subsection \<open>Evaluation of the examples\<close>


lemma cache_new_mru_cache:
  "cache_new example_arena 16 4 4 CACHE_REPLACEMENTPOLICY_MRU = Some mru_cache"
  unfolding mru_cache_def lru_cache_def by code_simp

lemma cache_read_lru_cache:
  "cache_read lru_cache example_mem 0x10 0 = Some (0x13121110, lru_cache_1, [])"
  unfolding lru_cache_1_def lru_cache_def by code_simp

lemma find_matching_lru_cache:
  "cache_set_find_matching_line lru_cache (unat (address_index lru_cache 0x10))
     (address_tag lru_cache 0x10) = Some (lru_cache, None)"
  unfolding lru_cache_def by code_simp

subsection \<open>The counters\<close>

text \<open>
  C10. \<open>cache_write\<close> changes nothing: the cache (both counters, every line's valid bit, tag
  and block, the arena, every set's recency list) and the process memory are the same
  after the call as before, for every address, value and random number.
\<close>

theorem cache_write_frame:
  "cache_write c mem address v rnd = (c, mem)"
  by (simp add: cache_write_def)

text \<open>
  C1, as the code has it. A call of \<open>cache_read\<close> that returns adds 1 to \<open>access_count\<close>
  (an \<open>unsigned int\<close>, so modulo \<open>2 ^ 32\<close>); it adds 1 to \<open>miss_count\<close> when the lookup
  misses and leaves \<open>miss_count\<close> as it is when the lookup hits. A call of \<open>cache_write\<close>
  changes neither counter.
\<close>

theorem cache_read_counters:
  assumes "cache_read c mem address rnd = Some (v, c', out)"
    and "cache_set_find_matching_line c (unat (address_index c address)) (address_tag c address)
           = Some (c1, r)"
  shows "access_count c' = access_count c + 1
       \<and> miss_count c' = (if r = None then miss_count c + 1 else miss_count c)
       \<and> access_count (fst (cache_write c mem address w rnd)) = access_count c
       \<and> miss_count (fst (cache_write c mem address w rnd)) = miss_count c"
  using assms
  by (auto simp: cache_read_def Let_def cache_write_def
      split: if_splits Option.bind_splits option.splits
      dest!: cache_set_add_counts find_matching_counts)

theorem cache_read_counters_witness:
  "cache_read lru_cache example_mem 0x10 0 = Some (0x13121110, lru_cache_1, [])
   \<and> cache_set_find_matching_line lru_cache (unat (address_index lru_cache 0x10))
        (address_tag lru_cache 0x10) = Some (lru_cache, None)
   \<and> access_count lru_cache_1 = access_count lru_cache + 1
   \<and> miss_count lru_cache_1 = miss_count lru_cache + 1
   \<and> access_count (fst (cache_write lru_cache example_mem 0x10 7 0)) = access_count lru_cache"
  using cache_read_counters [OF cache_read_lru_cache find_matching_lru_cache, of 7]
    cache_read_lru_cache find_matching_lru_cache
  by simp

text \<open>
  The claim C1 as stated fails for \<open>cache_write\<close>: the call leaves \<open>access_count\<close> at 0
  instead of raising it to 1.
\<close>

theorem cache_write_access_count_counterexample:
  "access_count (fst (cache_write lru_cache example_mem 0x10 7 0)) \<noteq> access_count lru_cache + 1"
  by (simp add: cache_write_def lru_cache_def)

subsection \<open>The recency list\<close>



lemma mru_find_first:
  assumes "x \<notin> set ys" "length ys < assoc" "i \<le> length ys"
  shows "mru_find assoc (ys @ x # zs) x i = Some (int (length ys))"
  using assms
proof (induction "length ys - i" arbitrary: i)
  case 0
  then have "i = length ys" by simp
  with 0 show ?case by (subst mru_find.simps) simp
next
  case (Suc d)
  then have lt: "i < length ys" by simp
  then have ne: "(ys @ x # zs) ! i \<noteq> x"
    using Suc.prems(1) by (auto simp: nth_append)
  have "mru_find assoc (ys @ x # zs) x (Suc i) = Some (int (length ys))"
    using Suc lt by (intro Suc.hyps(1)) auto
  with lt ne Suc.prems show ?case by (subst mru_find.simps) simp
qed

lemma mru_shift_head:
  "(mru_shift (ys @ x # zs) (length ys))[0 := v] = v # ys @ zs"
proof (induction ys arbitrary: x zs rule: rev_induct)
  case Nil
  show ?case by simp
next
  case (snoc y ys)
  have "(ys @ [y] @ x # zs)[Suc (length ys) := (ys @ [y] @ x # zs) ! length ys] = ys @ y # y # zs"
    by (simp add: list_update_append nth_append)
  with snoc [of y "y # zs"] show ?case by simp
qed

lemma mru_shift_not_Nil: "ml \<noteq> [] \<Longrightarrow> mru_shift ml n \<noteq> []"
  by (induction n arbitrary: ml) auto

lemma cache_line_make_mru_eq:
  assumes "x \<in> set (take (unat (associativity c)) (mru_list (sets c ! si)))"
  shows "cache_line_make_mru c si x =
    Some (c\<lparr>sets := (sets c)[si := (sets c ! si)\<lparr>mru_list := x # remove1 x (mru_list (sets c ! si))\<rparr>]\<rparr>)"
proof -
  let ?ml = "mru_list (sets c ! si)"
  let ?k = "unat (associativity c)"
  from assms obtain ys zs where sp: "take ?k ?ml = ys @ x # zs" and nin: "x \<notin> set ys"
    by (meson split_list_first)
  have ml: "?ml = ys @ x # (zs @ drop ?k ?ml)"
    using sp by (metis append_take_drop_id append_Cons append_assoc)
  have "length (take ?k ?ml) \<le> ?k" by simp
  with sp have len: "length ys < ?k" by simp
  have f: "mru_find ?k ?ml x 0 = Some (int (length ys))"
    by (subst ml) (rule mru_find_first [OF nin len], simp)
  have s: "(mru_shift ?ml (length ys))[0 := x] = x # remove1 x ?ml"
    apply (subst ml, subst mru_shift_head)
    apply (subst (2) ml)
    using nin apply (simp add: remove1_append)
    done
  have ne: "mru_shift ?ml (length ys) \<noteq> []"
    by (rule mru_shift_not_Nil) (use ml in auto)
  show ?thesis
    by (simp add: cache_line_make_mru_def Let_def f s ne)
qed

lemma sint_small: "\<not> 2 ^ 31 \<le> uint (w :: 32 word) \<Longrightarrow> sint w = int (unat w)"
proof -
  assume a: "\<not> 2 ^ 31 \<le> uint w"
  have "0 \<le> uint w" by (rule uint_ge_0)
  with a have b: "- (2 ^ 31) \<le> uint w" "uint w < 2 ^ 31" by linarith+
  have "signed_take_bit 31 (uint w) = uint w"
    using b by (rule signed_take_bit_int_eq_self)
  then show ?thesis by (simp only: sint_uint uint_nat) simp
qed


lemma cache_set_init_loop_mru:
  "cache_set_init_loop fi i n ls ml = Some (ls', ml') \<Longrightarrow>
     ml' = ml @ map int [i..<i + n] \<and> length ls' = length ls"
proof (induction n arbitrary: i ls ml)
  case 0
  then show ?case by simp
next
  case (Suc n)
  let ?k = "fi + int i"
  from Suc.prems have ok: "\<not> (?k < 0 \<or> int (length ls) \<le> ?k)"
    by (auto simp: Let_def split: if_splits)
  with Suc.prems have
    "cache_set_init_loop fi (Suc i) n (ls[nat ?k := (ls ! nat ?k)\<lparr>is_valid := 0\<rparr>]) (ml @ [int i])
       = Some (ls', ml')"
    by (simp add: Let_def)
  from Suc.IH [OF this] show ?case
    by (simp add: upt_conv_Cons)
qed

lemma cache_set_init_mru:
  assumes "cache_set_init assoc ls fi = Some (cs, ls')"
  shows "mru_list cs = map int [0..<unat assoc] \<and> set_size cs = int (unat assoc)
     \<and> first_index cs = fi \<and> length ls' = length ls"
proof -
  from assms have small: "\<not> 2 ^ 31 \<le> uint assoc"
    unfolding cache_set_init_def by (cases "2 ^ 31 \<le> uint assoc") simp_all
  with assms obtain ml where
    loop: "cache_set_init_loop fi 0 (unat assoc) ls [] = Some (ls', ml)" and
    cs: "cs = \<lparr>set_size = sint assoc, first_index = fi, mru_list = ml\<rparr>"
    unfolding cache_set_init_def by (auto split: Option.bind_splits)
  from cache_set_init_loop_mru [OF loop] cs sint_small [OF small] show ?thesis
    by simp
qed

lemma is_recency_permutation_upt: "is_recency_permutation k (map int [0..<k])"
  by (simp add: is_recency_permutation_def distinct_map)

lemma is_recency_permutation_move:
  assumes "is_recency_permutation k ml" "x \<in> set ml"
  shows "is_recency_permutation k (x # remove1 x ml)"
proof -
  from assms have d: "distinct ml" and l: "length ml = k" and s: "set ml = int ` {0..<k}"
    by (simp_all add: is_recency_permutation_def)
  from assms(2) have "0 < length ml" by (cases ml) auto
  with assms(2) l have "length (x # remove1 x ml) = k"
    by (simp add: length_remove1)
  moreover have "distinct (x # remove1 x ml)"
    using d by (simp add: set_remove1_eq)
  moreover have "set (x # remove1 x ml) = int ` {0..<k}"
    using d assms(2) s by (simp add: set_remove1_eq insert_absorb)
  ultimately show ?thesis
    by (simp only: is_recency_permutation_def)
qed

text \<open>
  C8. The recency list that \<open>cache_set_init\<close> builds is a permutation of the line indices
  \<open>0..<associativity\<close>, and \<open>cache_line_make_mru\<close>, called with a line index that is in
  the list, returns and leaves the list a permutation of the same indices.
\<close>

theorem recency_permutation:
  "(cache_set_init assoc ls fi = Some (cs, ls') \<longrightarrow>
      is_recency_permutation (unat assoc) (mru_list cs))
   \<and> (is_recency_permutation (unat (associativity c)) (mru_list (sets c ! si))
        \<and> si < length (sets c) \<and> x \<in> set (mru_list (sets c ! si)) \<longrightarrow>
      (\<exists>c'. cache_line_make_mru c si x = Some c'
          \<and> is_recency_permutation (unat (associativity c)) (mru_list (sets c' ! si))))"
proof (intro conjI impI)
  assume "cache_set_init assoc ls fi = Some (cs, ls')"
  from cache_set_init_mru [OF this] show "is_recency_permutation (unat assoc) (mru_list cs)"
    by (simp add: is_recency_permutation_upt)
next
  let ?ml = "mru_list (sets c ! si)"
  assume a: "is_recency_permutation (unat (associativity c)) ?ml
    \<and> si < length (sets c) \<and> x \<in> set ?ml"
  then have "length ?ml = unat (associativity c)"
    by (simp add: is_recency_permutation_def)
  with a have "x \<in> set (take (unat (associativity c)) ?ml)" by simp
  from cache_line_make_mru_eq [OF this] a is_recency_permutation_move [of _ ?ml x]
  show "\<exists>c'. cache_line_make_mru c si x = Some c'
          \<and> is_recency_permutation (unat (associativity c)) (mru_list (sets c' ! si))"
    by simp
qed

theorem recency_permutation_witness:
  "cache_set_init 4 (lines lru_cache) 0 = Some (sets lru_cache ! 0, lines lru_cache)
   \<and> is_recency_permutation 4 [0, 1, 2, 3]
   \<and> (2 :: int) \<in> set [0, 1, 2, 3]
   \<and> (\<exists>c'. cache_line_make_mru lru_cache 0 2 = Some c'
          \<and> is_recency_permutation 4 (mru_list (sets c' ! 0)))"
proof -
  have i: "cache_set_init 4 (lines lru_cache) 0 = Some (sets lru_cache ! 0, lines lru_cache)"
    unfolding lru_cache_def by code_simp
  have p: "is_recency_permutation 4 [0, 1, 2, 3]"
    using is_recency_permutation_upt [of 4] by (simp add: upt_rec)
  show ?thesis
    using recency_permutation [of 4 "lines lru_cache" 0 "sets lru_cache ! 0" "lines lru_cache"
        lru_cache 0 2] i p
    by (simp add: lru_cache_def)
qed

subsection \<open>Address decomposition\<close>







subsection \<open>Policy bits and trace text\<close>

text \<open>
  C2, evaluated. With \<open>policies = LRU | TRACE\<close> the tests \<open>policies == LRU\<close> and
  \<open>policies == MRU\<close> of the lookup fail: after the fills of \<open>0x00\<close> (line 0) and \<open>0x10\<close>
  (line 1), the hit on \<open>0x10\<close> leaves the recency list at \<open>[0, 1, 2, 3]\<close>, with line 0 at its
  head. With \<open>policies = LRU\<close> the same reads move line 1 to the head.
\<close>

theorem hit_with_trace_bit_keeps_recency:
  "do {
     c \<leftarrow> cache_new example_arena 16 4 4 (CACHE_REPLACEMENTPOLICY_LRU OR CACHE_TRACEPOLICY);
     (v1, c1, out1) \<leftarrow> cache_read c example_mem 0x00 0;
     (v2, c2, out2) \<leftarrow> cache_read c1 example_mem 0x10 0;
     (v3, c3, out3) \<leftarrow> cache_read c2 example_mem 0x10 0;
     Some (miss_count c3, map tag (lines c3), map mru_list (sets c3), out3)
   } = Some (2, [0, 4, 0, 0], [[0, 1, 2, 3]], [''Cache  hit in set   0 for address 0x10'' @ [CHR 0x0A]])
   \<and>
   do {
     c \<leftarrow> cache_new example_arena 16 4 4 CACHE_REPLACEMENTPOLICY_LRU;
     (v1, c1, out1) \<leftarrow> cache_read c example_mem 0x00 0;
     (v2, c2, out2) \<leftarrow> cache_read c1 example_mem 0x10 0;
     (v3, c3, out3) \<leftarrow> cache_read c2 example_mem 0x10 0;
     Some (miss_count c3, map tag (lines c3), map mru_list (sets c3), out3)
   } = Some (2, [0, 4, 0, 0], [[1, 0, 2, 3]], [])"
  by code_simp

text \<open>
  C3, evaluated. With tracing on, the first read of \<open>0x10\<close> misses (\<open>miss_count\<close> becomes 1)
  and writes \<open>Cache hit in set   0 for address 0x10\<close>; the second read hits (\<open>miss_count\<close>
  stays 1) and writes the same words with two spaces after \<open>Cache\<close>. The record of the miss
  holds the set index and the address, and says \<open>hit\<close>.
\<close>

theorem trace_of_miss_reads_hit:
  "do {
     c \<leftarrow> cache_new example_arena 16 4 4 (CACHE_REPLACEMENTPOLICY_LRU OR CACHE_TRACEPOLICY);
     (v1, c1, out1) \<leftarrow> cache_read c example_mem 0x10 0;
     (v2, c2, out2) \<leftarrow> cache_read c1 example_mem 0x10 0;
     Some (miss_count c1, out1, miss_count c2, out2)
   } = Some (1, [''Cache hit in set   0 for address 0x10'' @ [CHR 0x0A]],
             1, [''Cache  hit in set   0 for address 0x10'' @ [CHR 0x0A]])"
  by code_simp

subsection \<open>Lookup and replacement in a well-formed set\<close>

lemma first_int:
  assumes "0 \<le> (i :: int)" "P i"
  shows "\<exists>j. 0 \<le> j \<and> j \<le> i \<and> P j \<and> (\<forall>i'. 0 \<le> i' \<and> i' < j \<longrightarrow> \<not> P i')"
proof -
  define m where "m = (LEAST m. P (int m))"
  from assms have Pi: "P (int (nat i))" by simp
  then have Pm: "P (int m)" unfolding m_def by (rule LeastI)
  from Pi have le: "m \<le> nat i" unfolding m_def by (rule Least_le)
  have "\<not> P i'" if "0 \<le> i'" "i' < int m" for i'
  proof -
    from that have "nat i' < m" by simp
    then have "\<not> P (int (nat i'))" unfolding m_def by (rule not_less_Least)
    with that show ?thesis by simp
  qed
  with Pm le assms(1) show ?thesis
    by (intro exI [of _ "int m"]) auto
qed

lemma wf_set_bounds:
  assumes "wf_set c si" "0 \<le> i" "i < set_size (sets c ! si)"
  shows "\<not> (first_index (sets c ! si) + i < 0
            \<or> int (length (lines c)) \<le> first_index (sets c ! si) + i)"
  using assms by (auto simp: wf_set_def)

lemma wf_set_mem:
  assumes "wf_set c si" "0 \<le> j" "j < set_size (sets c ! si)"
  shows "j \<in> set (take (unat (associativity c)) (mru_list (sets c ! si)))"
proof -
  from assms(1) have p: "is_recency_permutation (unat (associativity c)) (mru_list (sets c ! si))"
    and s: "set_size (sets c ! si) = int (unat (associativity c))"
    by (simp_all add: wf_set_def)
  from assms(3) have "j < int (unat (associativity c))" by (simp only: s)
  with assms(2) have "nat j < unat (associativity c)" by (simp only: nat_less_iff)
  then have "int (nat j) \<in> int ` {0..<unat (associativity c)}"
    by (intro imageI) simp
  with assms(2) have "j \<in> int ` {0..<unat (associativity c)}" by simp
  with p show ?thesis by (simp add: is_recency_permutation_def)
qed

lemma make_mru_touch:
  assumes "wf_set c si" "0 \<le> j" "j < set_size (sets c ! si)"
  shows "cache_line_make_mru c si j = Some (touch c si j)"
  using cache_line_make_mru_eq [OF wf_set_mem [OF assms]] by (simp add: touch_def)

lemma find_matching_loop_skip:
  assumes "wf_set c si" "0 \<le> i" "i \<le> j" "j \<le> set_size (sets c ! si)"
    and "\<forall>i'. i \<le> i' \<and> i' < j \<longrightarrow> cache_line_check_validity_and_tag (slot c si i') tg = 0"
  shows "find_matching_loop c si tg i = find_matching_loop c si tg j"
  using assms(2,3,5)
proof (induction "nat (j - i)" arbitrary: i)
  case 0
  then show ?case by simp
next
  case (Suc d)
  then have lt: "i < j" by simp
  with Suc.prems assms(4) have b: "\<not> (first_index (sets c ! si) + i < 0
      \<or> int (length (lines c)) \<le> first_index (sets c ! si) + i)"
    by (intro wf_set_bounds [OF assms(1)]) auto
  from Suc.prems lt have z: "cache_line_check_validity_and_tag (slot c si i) tg = 0" by simp
  have "find_matching_loop c si tg (i + 1) = find_matching_loop c si tg j"
    using Suc.hyps(2) Suc.prems lt by (intro Suc.hyps(1)) auto
  with b z lt assms(4) show ?case
    by (subst find_matching_loop.simps) (simp add: Let_def slot_def)
qed

lemma find_matching_miss:
  assumes "wf_set c si"
    and "\<forall>i. 0 \<le> i \<and> i < set_size (sets c ! si) \<longrightarrow>
            cache_line_check_validity_and_tag (slot c si i) tg = 0"
  shows "cache_set_find_matching_line c si tg = Some (c, None)"
proof -
  from assms(1) have "0 \<le> set_size (sets c ! si)" by (simp add: wf_set_def)
  from find_matching_loop_skip [OF assms(1) order_refl this order_refl] assms(2)
  have "find_matching_loop c si tg 0 = find_matching_loop c si tg (set_size (sets c ! si))"
    by simp
  also have "\<dots> = Some (c, None)"
    by (subst find_matching_loop.simps) simp
  finally show ?thesis by (simp add: cache_set_find_matching_line_def)
qed

lemma find_matching_hit:
  assumes "wf_set c si" "0 \<le> j" "j < set_size (sets c ! si)"
    and "cache_line_check_validity_and_tag (slot c si j) tg \<noteq> 0"
    and "\<forall>i. 0 \<le> i \<and> i < j \<longrightarrow> cache_line_check_validity_and_tag (slot c si i) tg = 0"
  shows "cache_set_find_matching_line c si tg =
           Some (if uses_recency c then touch c si j else c, Some (first_index (sets c ! si) + j))"
proof -
  from find_matching_loop_skip [OF assms(1) order_refl assms(2), of tg] assms(3,5)
  have "find_matching_loop c si tg 0 = find_matching_loop c si tg j" by simp
  also have "\<dots> = Some (if uses_recency c then touch c si j else c,
                       Some (first_index (sets c ! si) + j))"
    using wf_set_bounds [OF assms(1,2,3)] assms(3,4) make_mru_touch [OF assms(1,2,3)]
    by (subst find_matching_loop.simps) (auto simp: Let_def slot_def uses_recency_def)
  finally show ?thesis by (simp add: cache_set_find_matching_line_def)
qed

lemma find_unused_loop_skip:
  assumes "wf_set c si" "0 \<le> i" "i \<le> j" "j \<le> set_size (sets c ! si)"
    and "\<forall>i'. i \<le> i' \<and> i' < j \<longrightarrow> is_valid (slot c si i') \<noteq> 0"
  shows "find_unused_loop c si i = find_unused_loop c si j"
  using assms(2,3,5)
proof (induction "nat (j - i)" arbitrary: i)
  case 0
  then show ?case by simp
next
  case (Suc d)
  then have lt: "i < j" by simp
  with Suc.prems assms(4) have b: "\<not> (first_index (sets c ! si) + i < 0
      \<or> int (length (lines c)) \<le> first_index (sets c ! si) + i)"
    by (intro wf_set_bounds [OF assms(1)]) auto
  from Suc.prems lt have z: "is_valid (slot c si i) \<noteq> 0" by simp
  have "find_unused_loop c si (i + 1) = find_unused_loop c si j"
    using Suc.hyps(2) Suc.prems lt by (intro Suc.hyps(1)) auto
  with b z lt assms(4) show ?case
    by (subst find_unused_loop.simps) (simp add: Let_def slot_def)
qed

lemma find_unused_none:
  assumes "wf_set c si"
    and "\<forall>i. 0 \<le> i \<and> i < set_size (sets c ! si) \<longrightarrow> is_valid (slot c si i) \<noteq> 0"
  shows "find_unused_loop c si 0 = Some None"
proof -
  from assms(1) have "0 \<le> set_size (sets c ! si)" by (simp add: wf_set_def)
  from find_unused_loop_skip [OF assms(1) order_refl this order_refl] assms(2)
  have "find_unused_loop c si 0 = find_unused_loop c si (set_size (sets c ! si))"
    by simp
  also have "\<dots> = Some None"
    by (subst find_unused_loop.simps) simp
  finally show ?thesis .
qed

lemma find_unused_first:
  assumes "wf_set c si" "0 \<le> j" "j < set_size (sets c ! si)"
    and "is_valid (slot c si j) = 0"
    and "\<forall>i. 0 \<le> i \<and> i < j \<longrightarrow> is_valid (slot c si i) \<noteq> 0"
  shows "find_unused_loop c si 0 =
           Some (Some (if uses_recency c then touch c si j else c, first_index (sets c ! si) + j))"
proof -
  from find_unused_loop_skip [OF assms(1) order_refl assms(2)] assms(3,5)
  have "find_unused_loop c si 0 = find_unused_loop c si j" by simp
  also have "\<dots> = Some (Some (if uses_recency c then touch c si j else c,
                       first_index (sets c ! si) + j))"
    using wf_set_bounds [OF assms(1,2,3)] assms(3,4) make_mru_touch [OF assms(1,2,3)]
    by (subst find_unused_loop.simps) (auto simp: Let_def slot_def uses_recency_def)
  finally show ?thesis .
qed

text \<open>
  C7. Whatever the policy flags, when line \<open>j\<close> of a well-formed set is unused and the
  lines before it are valid, \<open>find_available_cache_line\<close> returns line \<open>j\<close> (the first
  unused line in scan order) and changes no line: a valid line is not chosen while an unused
  one exists.
\<close>

theorem find_available_prefers_unused:
  assumes "wf_set c si" "0 \<le> j" "j < set_size (sets c ! si)"
    and "is_valid (slot c si j) = 0"
    and "\<forall>i. 0 \<le> i \<and> i < j \<longrightarrow> is_valid (slot c si i) \<noteq> 0"
  shows "\<exists>c'. find_available_cache_line c si rnd = Some (c', first_index (sets c ! si) + j)
             \<and> lines c' = lines c"
  using find_unused_first [OF assms]
  by (simp add: find_available_cache_line_def touch_def)

lemma sel_state_fields [simp]:
  "lines (sel_state c si j) = lines c" "memory (sel_state c si j) = memory c"
  "policies (sel_state c si j) = policies c" "associativity (sel_state c si j) = associativity c"
  "access_count (sel_state c si j) = access_count c" "miss_count (sel_state c si j) = miss_count c"
  "block_offset_mask (sel_state c si j) = block_offset_mask c"
  "cache_index_mask (sel_state c si j) = cache_index_mask c"
  "cache_index_shift (sel_state c si j) = cache_index_shift c"
  "tag_mask (sel_state c si j) = tag_mask c" "tag_shift (sel_state c si j) = tag_shift c"
  "line_size (sel_state c si j) = line_size c"
  "length (sets (sel_state c si j)) = length (sets c)"
  by (simp_all add: sel_state_def touch_def)

lemma sel_state_set:
  "si < length (sets c) \<Longrightarrow>
   sets (sel_state c si j) ! si =
     (sets c ! si)\<lparr>mru_list := if uses_recency c then j # remove1 j (mru_list (sets c ! si))
                                 else mru_list (sets c ! si)\<rparr>"
  by (simp add: sel_state_def touch_def)

lemma sel_state_other:
  "si' \<noteq> si \<Longrightarrow> sets (sel_state c si j) ! si' = sets c ! si'"
  by (simp add: sel_state_def touch_def)

lemma wf_set_sel_state:
  assumes "wf_set c si'" "wf_set c si" "0 \<le> j" "j < set_size (sets c ! si)"
  shows "wf_set (sel_state c si j) si'"
proof (cases "si' = si")
  case True
  from wf_set_mem [OF assms(2,3,4)] have "j \<in> set (mru_list (sets c ! si))"
    by (rule in_set_takeD)
  with assms(2) True show ?thesis
    by (auto simp: wf_set_def sel_state_set is_recency_permutation_move)
next
  case False
  with assms(1) show ?thesis
    by (simp add: wf_set_def sel_state_other)
qed

lemma c_rem_range: "0 \<le> a \<Longrightarrow> 0 < b \<Longrightarrow> 0 \<le> c_rem a b \<and> c_rem a b < b"
  by (cases "a = 0") (simp_all add: c_rem_def)

lemma wf_set_mru_range:
  assumes "wf_set c si" "n < length (mru_list (sets c ! si))"
  shows "0 \<le> mru_list (sets c ! si) ! n \<and> mru_list (sets c ! si) ! n < set_size (sets c ! si)"
proof -
  from assms(1) have s: "set (mru_list (sets c ! si)) = int ` {0..<unat (associativity c)}"
    and z: "set_size (sets c ! si) = int (unat (associativity c))"
    by (simp_all add: wf_set_def is_recency_permutation_def)
  from assms(2) have "mru_list (sets c ! si) ! n \<in> set (mru_list (sets c ! si))" by simp
  then have "mru_list (sets c ! si) ! n \<in> int ` {0..<unat (associativity c)}" by (simp only: s)
  then obtain x where x: "mru_list (sets c ! si) ! n = int x" "x < unat (associativity c)"
    by auto
  from x(2) have "int x < int (unat (associativity c))" by (simp only: of_nat_less_iff)
  with x(1) show ?thesis by (simp only: z) simp
qed

lemma touch_head:
  "si < length (sets c) \<Longrightarrow> mru_list (sets (touch c si j) ! si) ! 0 = j"
  by (simp add: touch_def)

lemma find_available_wf:
  assumes wf: "wf_set c si"
    and ok: "find_available_cache_line c si rnd = Some (c', k)"
  shows "\<exists>j. 0 \<le> j \<and> j < set_size (sets c ! si) \<and> c' = sel_state c si j
            \<and> (uses_recency c \<or> 0 \<le> rnd \<longrightarrow> k = first_index (sets c ! si) + j)"
proof (cases "\<exists>i. 0 \<le> i \<and> i < set_size (sets c ! si) \<and> is_valid (slot c si i) = 0")
  case True
  then obtain i where i: "0 \<le> i" "i < set_size (sets c ! si) \<and> is_valid (slot c si i) = 0"
    by blast
  from first_int [of i "\<lambda>i. i < set_size (sets c ! si) \<and> is_valid (slot c si i) = 0", OF i]
  obtain j where j: "0 \<le> j" "j \<le> i" "j < set_size (sets c ! si)" "is_valid (slot c si j) = 0"
    "\<forall>i'. 0 \<le> i' \<and> i' < j \<longrightarrow> \<not> (i' < set_size (sets c ! si) \<and> is_valid (slot c si i') = 0)"
    by blast
  from j(5) j(3) have "\<forall>i'. 0 \<le> i' \<and> i' < j \<longrightarrow> is_valid (slot c si i') \<noteq> 0" by auto
  from find_unused_first [OF wf j(1) j(3) j(4) this] ok j(1,3) show ?thesis
    by (auto simp: find_available_cache_line_def sel_state_def)
next
  case False
  then have "\<forall>i. 0 \<le> i \<and> i < set_size (sets c ! si) \<longrightarrow> is_valid (slot c si i) \<noteq> 0" by blast
  note none = find_unused_none [OF wf this]
  from wf have len: "int (length (mru_list (sets c ! si))) = set_size (sets c ! si)"
    and sil: "si < length (sets c)"
    by (simp_all add: wf_set_def is_recency_permutation_def)
  show ?thesis
  proof (cases "policies c = CACHE_REPLACEMENTPOLICY_MRU")
    case True
    with ok none have ne: "mru_list (sets c ! si) \<noteq> []"
      by (auto simp: find_available_cache_line_def Let_def split: if_splits)
    let ?j = "mru_list (sets c ! si) ! 0"
    from ne have "0 < length (mru_list (sets c ! si))" by simp
    from wf_set_mru_range [OF wf this] have r: "0 \<le> ?j" "?j < set_size (sets c ! si)" by simp_all
    from ok none True ne sil make_mru_touch [OF wf r] touch_head [OF sil, of ?j]
    have "k = first_index (sets c ! si) + ?j \<and> c' = touch c si ?j"
      by (auto simp: find_available_cache_line_def Let_def touch_def)
    with r True show ?thesis
      by (intro exI [of _ ?j]) (simp add: sel_state_def uses_recency_def)
  next
    case nm: False
    show ?thesis
    proof (cases "policies c = CACHE_REPLACEMENTPOLICY_LRU")
      case True
      with ok none nm have b: "\<not> (set_size (sets c ! si) - 1 < 0
          \<or> int (length (mru_list (sets c ! si))) \<le> set_size (sets c ! si) - 1)"
        by (auto simp: find_available_cache_line_def Let_def split: if_splits)
      let ?j = "mru_list (sets c ! si) ! nat (set_size (sets c ! si) - 1)"
      from b have "nat (set_size (sets c ! si) - 1) < length (mru_list (sets c ! si))" by linarith
      from wf_set_mru_range [OF wf this] have r: "0 \<le> ?j" "?j < set_size (sets c ! si)" by simp_all
      from ok none True nm b sil make_mru_touch [OF wf r]
      have "k = first_index (sets c ! si) + ?j \<and> c' = touch c si ?j"
        by (auto simp: find_available_cache_line_def Let_def touch_def)
      with r True show ?thesis
        by (intro exI [of _ ?j]) (simp add: sel_state_def uses_recency_def)
    next
      case False
      with ok none nm have z: "set_size (sets c ! si) \<noteq> 0"
        and e: "k = first_index (sets c ! si) + c_rem rnd (set_size (sets c ! si))" "c' = c"
        by (auto simp: find_available_cache_line_def Let_def split: if_splits)
      from z len have pos: "0 < set_size (sets c ! si)" by linarith
      show ?thesis
      proof (cases "0 \<le> rnd")
        case True
        from c_rem_range [OF True pos] e False nm show ?thesis
          by (intro exI [of _ "c_rem rnd (set_size (sets c ! si))"])
             (simp add: sel_state_def uses_recency_def)
      next
        case nr: False
        with pos e False nm show ?thesis
          by (intro exI [of _ 0]) (simp add: sel_state_def uses_recency_def)
      qed
    qed
  qed
qed

subsection \<open>Reads that hit and reads that miss\<close>

lemma match_cases:
  "no_match c si tg \<or> (\<exists>j. first_match c si tg j)"
proof (cases "no_match c si tg")
  case True then show ?thesis by simp
next
  case False
  then obtain i where i: "0 \<le> i"
    "i < set_size (sets c ! si) \<and> cache_line_check_validity_and_tag (slot c si i) tg \<noteq> 0"
    by (auto simp: no_match_def)
  from first_int [of i "\<lambda>i. i < set_size (sets c ! si)
      \<and> cache_line_check_validity_and_tag (slot c si i) tg \<noteq> 0", OF i]
  obtain j where j: "0 \<le> j" "j \<le> i" "j < set_size (sets c ! si)"
    "cache_line_check_validity_and_tag (slot c si j) tg \<noteq> 0"
    "\<forall>i'. 0 \<le> i' \<and> i' < j \<longrightarrow> \<not> (i' < set_size (sets c ! si)
        \<and> cache_line_check_validity_and_tag (slot c si i') tg \<noteq> 0)"
    by blast
  from j(5) j(3) have "\<forall>i'. 0 \<le> i' \<and> i' < j \<longrightarrow>
      cache_line_check_validity_and_tag (slot c si i') tg = 0" by auto
  with j have "first_match c si tg j" by (simp add: first_match_def)
  then show ?thesis by blast
qed

lemma cache_read_hit:
  assumes g: "unat (cache_index_shift c) < 64" "unat (tag_shift c) < 64"
    and wf: "wf_set c (unat (address_index c a))"
    and fm: "first_match c (unat (address_index c a)) (address_tag c a) j"
  shows "cache_read c mem a rnd =
     map_option (\<lambda>v. (v, (sel_state c (unat (address_index c a)) j)\<lparr>access_count := access_count c + 1\<rparr>,
                       trace_out c (trace_hit (address_index c a) a)))
       (cache_line_retrieve_data (memory c) (slot c (unat (address_index c a)) j)
          (ucast (address_offset c a)))"
proof -
  let ?si = "unat (address_index c a)"
  from fm have j: "0 \<le> j" "j < set_size (sets c ! ?si)"
    "cache_line_check_validity_and_tag (slot c ?si j) (address_tag c a) \<noteq> 0"
    "\<forall>i. 0 \<le> i \<and> i < j \<longrightarrow> cache_line_check_validity_and_tag (slot c ?si i) (address_tag c a) = 0"
    by (simp_all add: first_match_def)
  note h = find_matching_hit [OF wf j, folded sel_state_def]
  from wf have sil: "?si < length (sets c)" by (simp add: wf_set_def)
  from wf_set_bounds [OF wf j(1,2)] have "0 \<le> first_index (sets c ! ?si) + j" by simp
  show ?thesis
    using g sil
    by (cases "cache_line_retrieve_data (memory c) (slot c ?si j) (ucast (address_offset c a))")
       (simp_all add: cache_read_def Let_def h trace_out_def slot_def)
qed

lemma cache_read_miss:
  assumes g: "unat (cache_index_shift c) < 64" "unat (tag_shift c) < 64"
    and wf: "wf_set c (unat (address_index c a))"
    and nm: "no_match c (unat (address_index c a)) (address_tag c a)"
  shows "cache_read c mem a rnd =
     do {
       (c4, k) \<leftarrow> cache_set_add (c\<lparr>access_count := access_count c + 1,
                                   miss_count := miss_count c + 1\<rparr>) mem
                     (unat (address_index c a)) a (address_tag c a) rnd;
       v \<leftarrow> cache_line_retrieve_data (memory c4) (lines c4 ! nat k) (ucast (address_offset c a));
       Some (v, c4, trace_out c (trace_miss (address_index c a) a))
     }"
proof -
  let ?si = "unat (address_index c a)"
  from nm have "\<forall>i. 0 \<le> i \<and> i < set_size (sets c ! ?si) \<longrightarrow>
            cache_line_check_validity_and_tag (slot c ?si i) (address_tag c a) = 0"
    by (simp add: no_match_def)
  note h = find_matching_miss [OF wf this]
  from wf have sil: "?si < length (sets c)" by (simp add: wf_set_def)
  show ?thesis
    using g sil
    by (simp add: cache_read_def Let_def h trace_out_def)
qed

subsection \<open>Repeated reads\<close>





lemma read_success_guard:
  "cache_read c mem a rnd = Some r \<Longrightarrow>
     unat (cache_index_shift c) < 64 \<and> unat (tag_shift c) < 64"
  by (simp add: cache_read_def split: if_splits)




subsection \<open>Filling a set and evicting from it\<close>



















subsection \<open>The examples\<close>




lemma wf_set_lru_cache_1: "wf_set lru_cache_1 0"
  unfolding lru_cache_1_def lru_cache_def by code_simp










theorem find_available_prefers_unused_witness:
  "wf_set lru_cache_1 0
   \<and> is_valid (slot lru_cache_1 0 0) = 1 \<and> is_valid (slot lru_cache_1 0 1) = 0
   \<and> (\<exists>c'. find_available_cache_line lru_cache_1 0 7 = Some (c', 1)
          \<and> lines c' = lines lru_cache_1)"
proof -
  have j: "(0::int) \<le> 1" "1 < set_size (sets lru_cache_1 ! 0)"
    "is_valid (slot lru_cache_1 0 1) = 0"
    by (simp_all add: lru_cache_1_def lru_cache_def slot_def)
  have b: "\<forall>i. 0 \<le> i \<and> i < 1 \<longrightarrow> is_valid (slot lru_cache_1 0 i) \<noteq> 0"
  proof (intro allI impI)
    fix i :: int assume "0 \<le> i \<and> i < 1"
    then have "i = 0" by simp
    then show "is_valid (slot lru_cache_1 0 i) \<noteq> 0"
      by (simp add: lru_cache_1_def lru_cache_def slot_def)
  qed
  from find_available_prefers_unused [OF wf_set_lru_cache_1 j b, of 7] wf_set_lru_cache_1
  show ?thesis
    by (simp add: lru_cache_1_def lru_cache_def slot_def)
qed


lemma random_cache_full_reached:
  "do { c \<leftarrow> cache_new example_arena 16 4 2 CACHE_REPLACEMENTPOLICY_RANDOM;
        cache_reads c example_mem [(0x04, 0), (0x0C, 0)] }
     = Some ([0x07060504, 0x0F0E0D0C], random_cache_full)"
  unfolding random_cache_full_def by code_simp


subsection \<open>Well-formedness is an invariant\<close>

lemma cache_set_init_loop_bounds:
  "cache_set_init_loop fi i n ls ml = Some (ls', ml') \<Longrightarrow> 0 < n \<Longrightarrow>
     0 \<le> fi + int i \<and> fi + int i + int n \<le> int (length ls)"
proof (induction n arbitrary: i ls ml)
  case 0
  then show ?case by simp
next
  case (Suc n)
  let ?k = "fi + int i"
  from Suc.prems(1) have ok: "\<not> (?k < 0 \<or> int (length ls) \<le> ?k)"
    by (auto simp: Let_def split: if_splits)
  with Suc.prems(1) have rec:
    "cache_set_init_loop fi (Suc i) n (ls[nat ?k := (ls ! nat ?k)\<lparr>is_valid := 0\<rparr>]) (ml @ [int i])
       = Some (ls', ml')"
    by (simp add: Let_def)
  show ?case
  proof (cases "n = 0")
    case True
    with ok show ?thesis by simp
  next
    case False
    with Suc.IH [OF rec] ok show ?thesis by simp
  qed
qed

lemma cache_set_init_good:
  assumes "cache_set_init assoc ls fi = Some (s, ls')" "0 < unat assoc"
  shows "good_set (unat assoc) (length ls) s \<and> length ls' = length ls"
proof -
  from assms(1) have small: "\<not> 2 ^ 31 \<le> uint assoc"
    unfolding cache_set_init_def by (cases "2 ^ 31 \<le> uint assoc") simp_all
  with assms(1) obtain ml where
    loop: "cache_set_init_loop fi 0 (unat assoc) ls [] = Some (ls', ml)"
    unfolding cache_set_init_def by (auto split: Option.bind_splits)
  from cache_set_init_loop_bounds [OF loop assms(2)]
  have b: "0 \<le> fi" "fi + int (unat assoc) \<le> int (length ls)" by simp_all
  from cache_set_init_mru [OF assms(1)] b show ?thesis
    by (simp add: good_set_def is_recency_permutation_upt)
qed

lemma sets_init_loop_good:
  "sets_init_loop assoc n fi ls ss = Some (ss', ls') \<Longrightarrow> 0 < unat assoc \<Longrightarrow>
   \<forall>s \<in> set ss. good_set (unat assoc) (length ls) s \<Longrightarrow>
     (\<forall>s \<in> set ss'. good_set (unat assoc) (length ls) s) \<and> length ls' = length ls"
proof (induction n arbitrary: fi ls ss)
  case 0
  then show ?case by simp
next
  case (Suc n)
  from Suc.prems(1) obtain s ls1 where
    i: "cache_set_init assoc ls fi = Some (s, ls1)" and
    r: "sets_init_loop assoc n (fi + int (unat assoc)) ls1 (ss @ [s]) = Some (ss', ls')"
    by (auto split: Option.bind_splits)
  from cache_set_init_good [OF i Suc.prems(2)]
  have g: "good_set (unat assoc) (length ls) s" and l: "length ls1 = length ls" by simp_all
  from Suc.prems(3) g have "\<forall>s \<in> set (ss @ [s]). good_set (unat assoc) (length ls1) s"
    by (simp add: l)
  from Suc.IH [OF r Suc.prems(2) this] show ?case by (simp add: l)
qed

lemma cache_new_wf_set:
  assumes "cache_new arena num_bytes block_size assoc pol = Some c" "si < length (sets c)"
  shows "wf_set c si"
proof -
  from assms(1) have nz: "assoc \<noteq> 0"
    by (auto simp: cache_new_def split: if_splits)
  then have pos: "0 < unat assoc" by (simp add: unat_gt_0)
  from assms(1) obtain n ls0 where
    loop: "sets_init_loop assoc n 0 ls0 [] = Some (sets c, lines c)"
    and a: "associativity c = ucast assoc"
    by (auto simp: cache_new_def Let_def split: if_splits Option.bind_splits)
  from sets_init_loop_good [OF loop pos]
  have g: "\<forall>s \<in> set (sets c). good_set (unat assoc) (length ls0) s"
    and l: "length (lines c) = length ls0" by simp_all
  have "unat assoc < 2 ^ LENGTH(32)" by (rule unsigned_less)
  also have "(2::nat) ^ LENGTH(32) \<le> 2 ^ 64" by (rule power_increasing) simp_all
  finally have "take_bit 64 (unat assoc) = unat assoc" by (rule take_bit_nat_eq_self)
  then have u: "unat (associativity c) = unat assoc"
    by (simp add: a unsigned_ucast_eq)
  from g assms(2) have "good_set (unat assoc) (length ls0) (sets c ! si)" by simp
  with assms(2) show ?thesis
    by (simp add: wf_set_def good_set_def u l)
qed

lemma set_frame_refl [simp]: "\<exists>cs. c = c\<lparr>sets := (sets c)[si := cs]\<rparr>"
  by (rule exI [of _ "sets c ! si"]) simp

lemma cache_line_make_mru_set:
  "cache_line_make_mru c si x = Some c' \<Longrightarrow> \<exists>cs. c' = c\<lparr>sets := (sets c)[si := cs]\<rparr>"
  by (auto simp: cache_line_make_mru_def Let_def split: Option.bind_splits if_splits)

lemma find_matching_loop_set:
  "find_matching_loop c si tg i = Some (c', r) \<Longrightarrow> \<exists>cs. c' = c\<lparr>sets := (sets c)[si := cs]\<rparr>"
proof (induction c si tg i rule: find_matching_loop.induct)
  case (1 c si tg i)
  note IH = "1.IH"[OF refl _ refl]
  from "1.prems" show ?case
    by (subst (asm) find_matching_loop.simps)
       (auto simp: Let_def split: if_splits Option.bind_splits
             intro: IH cache_line_make_mru_set)
qed

lemma find_unused_loop_set:
  "find_unused_loop c si i = Some (Some (c', k)) \<Longrightarrow> \<exists>cs. c' = c\<lparr>sets := (sets c)[si := cs]\<rparr>"
proof (induction c si i rule: find_unused_loop.induct)
  case (1 c si i)
  note IH = "1.IH"[OF refl _ refl]
  from "1.prems" show ?case
    by (subst (asm) find_unused_loop.simps)
       (auto simp: Let_def split: if_splits Option.bind_splits
             intro: IH cache_line_make_mru_set)
qed

lemma find_available_cache_line_set:
  "find_available_cache_line c si rnd = Some (c', k) \<Longrightarrow>
     \<exists>cs. c' = c\<lparr>sets := (sets c)[si := cs]\<rparr>"
  by (auto simp: find_available_cache_line_def Let_def
      split: Option.bind_splits if_splits option.splits
      intro: cache_line_make_mru_set find_unused_loop_set)

lemma cache_set_add_other:
  assumes "cache_set_add c mem si address tg rnd = Some (c', k)" "si' \<noteq> si"
  shows "sets c' ! si' = sets c ! si' \<and> length (sets c') = length (sets c)
       \<and> length (lines c') = length (lines c) \<and> associativity c' = associativity c"
proof -
  from assms(1) obtain c1 where fa: "find_available_cache_line c si rnd = Some (c1, k)"
    and c': "sets c' = sets c1" "length (lines c') = length (lines c1)"
      "associativity c' = associativity c1"
    by (auto simp: cache_set_add_def Let_def split: Option.bind_splits if_splits)
  from find_available_cache_line_set [OF fa] obtain cs where
    "c1 = c\<lparr>sets := (sets c)[si := cs]\<rparr>" ..
  then have "sets c1 = (sets c)[si := cs]" "lines c1 = lines c" "associativity c1 = associativity c"
    by simp_all
  with c' assms(2) show ?thesis by simp
qed

lemma cache_read_other:
  assumes ok: "cache_read c mem a rnd = Some (v, c', out)" and ne: "si' \<noteq> unat (address_index c a)"
  shows "sets c' ! si' = sets c ! si' \<and> length (sets c') = length (sets c)
       \<and> length (lines c') = length (lines c) \<and> associativity c' = associativity c"
proof -
  let ?si = "unat (address_index c a)"
  from ok obtain c1 r where
    fm: "cache_set_find_matching_line c ?si (address_tag c a) = Some (c1, r)"
    by (auto simp: cache_read_def Let_def split: if_splits Option.bind_splits)
  from find_matching_loop_set [OF fm [unfolded cache_set_find_matching_line_def]]
  obtain cs where "c1 = c\<lparr>sets := (sets c)[?si := cs]\<rparr>" ..
  then have c1: "sets c1 = (sets c)[?si := cs]" "lines c1 = lines c"
    "associativity c1 = associativity c"
    by simp_all
  show ?thesis
  proof (cases r)
    case None
    with ok fm obtain k where
      "cache_set_add (c1\<lparr>access_count := access_count c1 + 1,
          miss_count := miss_count c1 + 1\<rparr>) mem ?si a (address_tag c a) rnd = Some (c', k)"
      by (auto simp: cache_read_def Let_def split: if_splits Option.bind_splits)
    from cache_set_add_other [OF this ne] c1 ne show ?thesis by simp
  next
    case (Some k)
    with ok fm have "c' = c1\<lparr>access_count := access_count c1 + 1\<rparr>"
      by (auto simp: cache_read_def Let_def split: if_splits Option.bind_splits)
    with c1 ne show ?thesis by simp
  qed
qed

lemma cache_read_wf_set:
  assumes wf: "wf_set c si'" and ok: "cache_read c mem a rnd = Some (v, c', out)"
  shows "wf_set c' si'"
proof (cases "si' = unat (address_index c a)")
  case False
  from cache_read_other [OF ok False] wf show ?thesis
    by (simp add: wf_set_def)
next
  case True
  let ?si = "unat (address_index c a)"
  let ?tg = "address_tag c a"
  from wf True have wfi: "wf_set c ?si" by simp
  note g = read_success_guard [OF ok]
  from match_cases [of c ?si ?tg] have "wf_set c' ?si"
  proof
    assume "\<exists>j. first_match c ?si ?tg j"
    then obtain j where fm: "first_match c ?si ?tg j" ..
    then have j: "0 \<le> j" "j < set_size (sets c ! ?si)" by (simp_all add: first_match_def)
    from ok have c1: "c' = (sel_state c ?si j)\<lparr>access_count := access_count c + 1\<rparr>"
      unfolding cache_read_hit [OF conjunct1 [OF g] conjunct2 [OF g] wfi fm] by auto
    show ?thesis
      using wf_set_sel_state [OF wfi wfi j] by (simp add: c1 wf_set_def)
  next
    assume nm: "no_match c ?si ?tg"
    let ?c3 = "c\<lparr>access_count := access_count c + 1, miss_count := miss_count c + 1\<rparr>"
    from ok obtain k where add: "cache_set_add ?c3 mem ?si a ?tg rnd = Some (c', k)"
      unfolding cache_read_miss [OF conjunct1 [OF g] conjunct2 [OF g] wfi nm]
      by (auto split: Option.bind_splits)
    have wf3: "wf_set ?c3 ?si" using wfi by (simp add: wf_set_def)
    from add obtain cs where fa: "find_available_cache_line ?c3 ?si rnd = Some (cs, k)"
      and c1: "c' = cs\<lparr>lines := (lines cs)[nat k := (lines cs ! nat k)\<lparr>tag := ?tg, is_valid := 1\<rparr>],
                      memory := memory c'\<rparr>"
      by (auto simp: cache_set_add_def Let_def split: Option.bind_splits if_splits)
    from find_available_wf [OF wf3 fa] obtain j where
      j: "0 \<le> j" "j < set_size (sets ?c3 ! ?si)" and cs: "cs = sel_state ?c3 ?si j"
      by auto
    show ?thesis
      using wf_set_sel_state [OF wf3 wf3 j]
      by (subst c1) (simp add: cs wf_set_def)
  qed
  with True show ?thesis by simp
qed

lemma cache_reads_wf_set:
  "wf_set c si \<Longrightarrow> cache_reads c mem xs = Some (vs, c') \<Longrightarrow> wf_set c' si"
proof (induction xs arbitrary: c vs)
  case Nil
  then show ?case by simp
next
  case (Cons x xs)
  obtain a rnd where x: "x = (a, rnd)" by (cases x)
  from Cons.prems(2) x obtain v c1 out vs' where
    r: "cache_read c mem a rnd = Some (v, c1, out)" and
    rest: "cache_reads c1 mem xs = Some (vs', c')"
    by (auto split: Option.bind_splits)
  from cache_read_wf_set [OF Cons.prems(1) r] rest show ?case
    by (rule Cons.IH)
qed

end
